theory Spec2Isabelle
  imports Main "HOL-Library.Word"
begin

section \<open>Fixed-point reciprocal square root (fast\_rsqrt.c)\<close>

text \<open>
  The C types are modelled by machine words: \<open>uint32_t\<close> and \<open>int32_t\<close> are
  \<open>32 word\<close> (the signed reading is \<open>sint\<close>, the sign-extending conversion
  \<open>scast\<close>), \<open>uint64_t\<close> is \<open>64 word\<close>. Arithmetic on words wraps as the
  unsigned C arithmetic does, \<open>x << k\<close> is \<open>push_bit k x\<close>, \<open>x >> k\<close> is
  \<open>drop_bit k x\<close>, and a conversion between unsigned widths is \<open>ucast\<close>.
\<close>

type_synonym u32 = "32 word"
type_synonym u64 = "64 word"

subsection \<open>clz32 (lines 5 to 14)\<close>

definition clz32 :: "u32 \<Rightarrow> u32" where
  "clz32 x0 =
     (if x0 = 0 then 32
      else
        let n = (0 :: u32); x = x0;
            (n, x) = (if drop_bit 16 x = 0 then (n + 16, push_bit 16 x) else (n, x));
            (n, x) = (if drop_bit 24 x = 0 then (n + 8, push_bit 8 x) else (n, x));
            (n, x) = (if drop_bit 28 x = 0 then (n + 4, push_bit 4 x) else (n, x));
            (n, x) = (if drop_bit 30 x = 0 then (n + 2, push_bit 2 x) else (n, x));
            n = (if drop_bit 31 x = 0 then n + 1 else n)
        in n)"

subsection \<open>The seed table (lines 18 to 23)\<close>

definition rsqrt_table :: "u32 list" where
  "rsqrt_table =
     [65536, 46341, 32768, 23170, 16384, 11585, 8192, 5793,
      4096,  2896,  2048,  1448, 1024,   724,  512,  362,
      256,   181,   128,    90,   64,    45,   32,   23,
       16,    11,     8,     6,    4,     3,    2,    1]"

subsection \<open>q16\_newton\_step (lines 27 to 33)\<close>

definition q16_newton_step :: "u32 \<Rightarrow> u32 \<Rightarrow> u32" where
  "q16_newton_step y x =
     (let y2 = (ucast y :: u64) * ucast y;
          term64 = push_bit 32 (3 :: u64) - ucast x * y2;
          prod = (ucast y :: u64) * term64
      in ucast (drop_bit 33 prod))"

subsection \<open>fast\_rsqrt (lines 36 to 63)\<close>

text \<open>
  The locals of \<open>fast_rsqrt\<close> that the properties below speak about are given a
  definition each, in the order of the source: the exponent bucket \<open>exp\<close> (line 42),
  the interpolation offset \<open>frac\<close> (lines 50 to 53) and the interpolated seed \<open>y\<close>
  (lines 45, 46 and 55 to 57). The table is read at \<open>exp\<close> and \<open>exp + 1\<close>; both
  indices are below 32 for every nonzero input (lemma \<open>fast_rsqrt_exp_bucket\<close>).
\<close>

definition fast_rsqrt_exp :: "u32 \<Rightarrow> u32" where
  "fast_rsqrt_exp x = 31 - clz32 x"

definition fast_rsqrt_frac :: "u32 \<Rightarrow> u32" where
  "fast_rsqrt_frac x =
     (let exp = fast_rsqrt_exp x;
          one_exp = (if exp < 31 then push_bit (unat exp) (1 :: u32) else 0);
          diff = (ucast x :: u64) - ucast one_exp;
          frac64 = push_bit 16 diff
      in ucast (drop_bit (unat exp) frac64))"

definition fast_rsqrt_interp :: "u32 \<Rightarrow> u32" where
  "fast_rsqrt_interp x =
     (let exp = fast_rsqrt_exp x;
          y_base = rsqrt_table ! unat exp;
          y_next = (if exp < 31 then rsqrt_table ! unat (exp + 1) else 1);
          frac = fast_rsqrt_frac x;
          delta = y_base - y_next;
          interp = (ucast delta :: u64) * ucast frac
      in y_base - ucast (drop_bit 16 interp))"

definition fast_rsqrt :: "u32 \<Rightarrow> u32" where
  "fast_rsqrt x =
     (if x = 0 then 0xFFFFFFFF
      else
        let y = fast_rsqrt_interp x;
            y = q16_newton_step y x;
            y = q16_newton_step y x
        in y)"

subsection \<open>dist3 (lines 66 to 76)\<close>

definition dist3 :: "u32 \<Rightarrow> u32 \<Rightarrow> u32 \<Rightarrow> u32" where
  "dist3 x y z =
     (let sum_sq = (scast x :: u64) * scast x + scast y * scast y + scast z * scast z;
          sum_sq = (if sum_sq > 0xFFFFFFFF then 0xFFFFFFFF else sum_sq);
          inv_sqrt = fast_rsqrt (ucast sum_sq);
          dist = (ucast inv_sqrt :: u64) * ucast (ucast sum_sq :: u32)
      in ucast (drop_bit 16 dist))"


subsection \<open>The computation in exact arithmetic\<close>

text \<open>
  The same steps on natural numbers, without wrap-around: one Newton-Raphson step,
  the interpolated seed of an input \<open>x\<close> in bucket \<open>e < 31\<close>, and the seed followed
  by the two steps. Lemma \<open>fast_rsqrt_unat\<close> proves that the code computes exactly
  this for every nonzero input below the top bucket.
\<close>

definition newton_nat :: "nat \<Rightarrow> nat \<Rightarrow> nat" where
  "newton_nat y x = (y * (3 * 2 ^ 32 - x * y\<^sup>2)) div 2 ^ 33"

definition seed_nat :: "nat \<Rightarrow> nat \<Rightarrow> nat" where
  "seed_nat e x =
     unat (rsqrt_table ! e)
       - (unat (rsqrt_table ! e) - unat (rsqrt_table ! (e + 1)))
         * (((x - 2 ^ e) * 2 ^ 16) div 2 ^ e) div 2 ^ 16"

definition rsqrt_nat :: "nat \<Rightarrow> nat \<Rightarrow> nat" where
  "rsqrt_nat e x = newton_nat (newton_nat (seed_nat e x) x) x"

subsection \<open>The tolerance of the round trip\<close>

text \<open>
  The output \<open>y\<close> for the input \<open>x\<close> is within 0.1 per cent when the exact integer
  \<open>y\<^sup>2 * x\<close> differs from \<open>2 ^ 32\<close> by less than \<open>2 ^ 32 / 1000\<close>.
\<close>

definition tolerance_ok :: "nat \<Rightarrow> nat \<Rightarrow> bool" where
  "tolerance_ok y x \<longleftrightarrow> 1000 * \<bar>int (y\<^sup>2 * x) - 2 ^ 32\<bar> < 2 ^ 32"

section \<open>Words read as natural numbers\<close>

lemma unat_ucast_up: "unat (ucast (w :: u32) :: u64) = unat w"
proof -
  have "unat w < 2 ^ 64"
    using unsigned_less [of w, where 'a = nat] by simp
  then show ?thesis
    by (simp add: unsigned_ucast_eq take_bit_nat_eq_self)
qed

lemma unat_ucast_down: "unat (ucast (w :: u64) :: u32) = unat w mod 2 ^ 32"
  by (simp add: unsigned_ucast_eq take_bit_eq_mod)

lemma unat_drop_bit_div: "unat (drop_bit k (w :: 'a::len word)) = unat w div 2 ^ k"
  using unat_drop_bit_eq [of k w] drop_bit_eq_div [of k "unat w"] by simp

lemma unat_push_bit_mod:
  "unat (push_bit k (w :: 'a::len word)) = (unat w * 2 ^ k) mod 2 ^ LENGTH('a)"
  using unsigned_push_bit_eq [of k w, where 'a = nat] push_bit_eq_mult [of k "unat w"]
  by (simp add: take_bit_eq_mod)

lemma drop_bit_zero_iff: "drop_bit k (w :: 'a::len word) = 0 \<longleftrightarrow> unat w < 2 ^ k"
proof -
  have "drop_bit k w = 0 \<longleftrightarrow> unat (drop_bit k w) = 0"
    by (simp add: unat_eq_zero)
  also have "\<dots> \<longleftrightarrow> unat w < 2 ^ k"
    by (simp add: unat_drop_bit_div div_eq_0_iff)
  finally show ?thesis .
qed

lemma unat_lt_2p32: "unat (w :: u32) < 2 ^ 32"
  using unsigned_less [of w, where 'a = nat] by simp

lemma unat_mult_u64:
  fixes a b :: u64
  assumes "unat a * unat b < 2 ^ 64"
  shows "unat (a * b) = unat a * unat b"
  using assms by (simp add: unat_word_ariths)

section \<open>The exponent bucket\<close>

text \<open>
  One halving step of the binary search in \<open>clz32\<close>: when the upper \<open>k\<close> bits of the
  window are clear, shifting left by \<open>k\<close> loses nothing and brings the leading one
  into the upper half.
\<close>

lemma clz_shift_step:
  fixes x :: u32
  assumes k: "2 * k \<le> 32" and lo: "2 ^ (32 - 2 * k) \<le> unat x"
    and z: "drop_bit (32 - k) x = 0"
  shows "unat (push_bit k x) = unat x * 2 ^ k" and "2 ^ (32 - k) \<le> unat (push_bit k x)"
proof -
  from z have "unat x < 2 ^ (32 - k)"
    by (simp add: drop_bit_zero_iff)
  then have "unat x * 2 ^ k < 2 ^ (32 - k) * 2 ^ k"
    by simp
  also have "(2::nat) ^ (32 - k) * 2 ^ k = 2 ^ 32"
    using k by (simp flip: power_add)
  finally have small: "unat x * 2 ^ k < 2 ^ 32" .
  then show eq: "unat (push_bit k x) = unat x * 2 ^ k"
    by (simp add: unat_push_bit_mod)
  have "(2::nat) ^ (32 - k) = 2 ^ (32 - 2 * k) * 2 ^ k"
    using k by (simp flip: power_add)
  also have "\<dots> \<le> unat x * 2 ^ k"
    using lo by simp
  finally show "2 ^ (32 - k) \<le> unat (push_bit k x)"
    by (simp add: eq)
qed


lemma clz32_shifted:
  fixes x0 :: u32
  assumes nz: "x0 \<noteq> 0"
  shows "\<exists>m \<le> 31. clz32 x0 = of_nat m \<and> 2 ^ 31 \<le> unat x0 * 2 ^ m \<and> unat x0 * 2 ^ m < 2 ^ 32"
proof -
  define c1 where "c1 \<longleftrightarrow> drop_bit 16 x0 = 0"
  define x1 where "x1 = (if c1 then push_bit 16 x0 else x0)"
  define m1 :: nat where "m1 = (if c1 then 16 else 0)"
  define c2 where "c2 \<longleftrightarrow> drop_bit 24 x1 = 0"
  define x2 where "x2 = (if c2 then push_bit 8 x1 else x1)"
  define m2 :: nat where "m2 = (if c2 then m1 + 8 else m1)"
  define c3 where "c3 \<longleftrightarrow> drop_bit 28 x2 = 0"
  define x3 where "x3 = (if c3 then push_bit 4 x2 else x2)"
  define m3 :: nat where "m3 = (if c3 then m2 + 4 else m2)"
  define c4 where "c4 \<longleftrightarrow> drop_bit 30 x3 = 0"
  define x4 where "x4 = (if c4 then push_bit 2 x3 else x3)"
  define m4 :: nat where "m4 = (if c4 then m3 + 2 else m3)"
  define c5 where "c5 \<longleftrightarrow> drop_bit 31 x4 = 0"
  define m5 :: nat where "m5 = (if c5 then m4 + 1 else m4)"
  have clz: "clz32 x0 = of_nat m5"
    using nz
    by (simp add: clz32_def Let_def m5_def m4_def m3_def m2_def m1_def
        c5_def c4_def c3_def c2_def c1_def x4_def x3_def x2_def x1_def)
  have p0: "2 ^ (32 - 2 * 16) \<le> unat x0"
    using nz by (simp add: Suc_le_eq unat_gt_0)
  have s1: "unat x1 = unat x0 * 2 ^ m1 \<and> 2 ^ 16 \<le> unat x1"
    using clz_shift_step [of 16 x0] p0
    by (cases c1) (simp_all add: x1_def m1_def c1_def drop_bit_zero_iff)
  have s2: "unat x2 = unat x0 * 2 ^ m2 \<and> 2 ^ 24 \<le> unat x2"
    using clz_shift_step [of 8 x1] s1
    by (cases c2) (simp_all add: x2_def m2_def c2_def drop_bit_zero_iff power_add)
  have s3: "unat x3 = unat x0 * 2 ^ m3 \<and> 2 ^ 28 \<le> unat x3"
    using clz_shift_step [of 4 x2] s2
    by (cases c3) (simp_all add: x3_def m3_def c3_def drop_bit_zero_iff power_add)
  have s4: "unat x4 = unat x0 * 2 ^ m4 \<and> 2 ^ 30 \<le> unat x4"
    using clz_shift_step [of 2 x3] s3
    by (cases c4) (simp_all add: x4_def m4_def c4_def drop_bit_zero_iff power_add)
  have lt: "unat x4 < 2 ^ 32"
    using unsigned_less [of x4, where 'a = nat] by simp
  have s5: "2 ^ 31 \<le> unat x0 * 2 ^ m5 \<and> unat x0 * 2 ^ m5 < 2 ^ 32"
    using s4 lt by (cases c5) (simp_all add: m5_def c5_def drop_bit_zero_iff)
  have "m5 \<le> 31"
    by (simp add: m5_def m4_def m3_def m2_def m1_def)
  with clz s5 show ?thesis
    by blast
qed

lemma fast_rsqrt_exp_bucket:
  fixes x :: u32
  assumes nz: "x \<noteq> 0"
  shows "unat (fast_rsqrt_exp x) \<le> 31"
    and "2 ^ unat (fast_rsqrt_exp x) \<le> unat x"
    and "unat x < 2 ^ (unat (fast_rsqrt_exp x) + 1)"
proof -
  from clz32_shifted [OF nz] obtain m where m: "m \<le> 31" "clz32 x = of_nat m"
    and lo: "2 ^ 31 \<le> unat x * 2 ^ m" and hi: "unat x * 2 ^ m < 2 ^ 32"
    by blast
  have um: "unat (of_nat m :: u32) = m"
    using m by (simp add: unat_of_nat)
  then have "(of_nat m :: u32) \<le> 31"
    using m by (simp add: word_le_nat_alt)
  then have e: "unat (fast_rsqrt_exp x) = 31 - m"
    using m um by (simp add: fast_rsqrt_exp_def unat_sub)
  show "unat (fast_rsqrt_exp x) \<le> 31"
    by (simp add: e)
  have split31: "(2::nat) ^ 31 = 2 ^ (31 - m) * 2 ^ m"
    using m by (simp flip: power_add)
  have split32: "(2::nat) ^ 32 = 2 ^ (31 - m + 1) * 2 ^ m"
    using m by (simp flip: power_add)
  from lo have "2 ^ (31 - m) * 2 ^ m \<le> unat x * (2::nat) ^ m"
    by (simp only: split31)
  then show "2 ^ unat (fast_rsqrt_exp x) \<le> unat x"
    by (simp add: e)
  from hi have "unat x * (2::nat) ^ m < 2 ^ (31 - m + 1) * 2 ^ m"
    by (simp only: split32)
  then show "unat x < 2 ^ (unat (fast_rsqrt_exp x) + 1)"
    by (simp add: e)
qed

section \<open>The seed table and the interpolated seed\<close>

lemma upt_32: "[0..<32] = [0,1,2,3,4,5,6,7,8,9,10,11,12,13,14,15,16,17,18,19,20,21,22,23,24,25,26,27,28,29,30,31]"
  by code_simp

lemma below_32_cases:
  assumes "list_all P [0..<32]" and "e < 32"
  shows "P (e :: nat)"
  using assms by (simp add: list_all_iff)

lemma rsqrt_table_decreasing:
  assumes "e < 31"
  shows "rsqrt_table ! (e + 1) \<le> rsqrt_table ! e"
proof -
  have "list_all (\<lambda>e. e < 31 \<longrightarrow> rsqrt_table ! (e + 1) \<le> rsqrt_table ! e) [0..<32]"
    unfolding upt_32 by (simp add: rsqrt_table_def)
  from below_32_cases [OF this, of e] assms show ?thesis
    by simp
qed

lemma rsqrt_table_seed_bound:
  assumes "e < 32"
  shows "2 ^ (e + 1) * (unat (rsqrt_table ! e))\<^sup>2 \<le> 3 * 2 ^ 32"
    and "unat (rsqrt_table ! e) \<le> 2 ^ 16"
proof -
  have "list_all (\<lambda>e. 2 ^ (e + 1) * (unat (rsqrt_table ! e))\<^sup>2 \<le> 3 * 2 ^ 32
      \<and> unat (rsqrt_table ! e) \<le> 2 ^ 16) [0..<32]"
    unfolding upt_32 by (simp add: rsqrt_table_def)
  from below_32_cases [OF this, of e] assms
  show "2 ^ (e + 1) * (unat (rsqrt_table ! e))\<^sup>2 \<le> 3 * 2 ^ 32"
    and "unat (rsqrt_table ! e) \<le> 2 ^ 16"
    by simp_all
qed

text \<open>
  Below the top bucket the offset is the exact quotient
  \<open>(x - 2 ^ e) * 2 ^ 16 div 2 ^ e\<close>, a Q16 fraction below 65536; no intermediate
  value wraps.
\<close>

lemma fast_rsqrt_frac_low:
  fixes x :: u32
  assumes nz: "x \<noteq> 0" and e31: "unat (fast_rsqrt_exp x) < 31"
  shows "unat (fast_rsqrt_frac x)
      = ((unat x - 2 ^ unat (fast_rsqrt_exp x)) * 2 ^ 16) div 2 ^ unat (fast_rsqrt_exp x)"
    and "unat (fast_rsqrt_frac x) < 2 ^ 16"
proof -
  define e where "e = unat (fast_rsqrt_exp x)"
  define one_exp :: u32 where "one_exp = push_bit e 1"
  define diff :: u64 where "diff = ucast x - ucast one_exp"
  define d where "d = unat x - 2 ^ e"
  have lo: "2 ^ e \<le> unat x" and hi: "unat x < 2 ^ (e + 1)"
    using fast_rsqrt_exp_bucket [OF nz] by (simp_all add: e_def)
  have lt: "fast_rsqrt_exp x < 31"
    using e31 by (simp add: word_less_nat_alt)
  have frac: "fast_rsqrt_frac x = ucast (drop_bit e (push_bit 16 diff))"
    using lt by (simp add: fast_rsqrt_frac_def Let_def diff_def one_exp_def e_def)
  have "(2::nat) ^ e < 2 ^ 32"
    using e31 by (intro power_strict_increasing) (simp_all add: e_def)
  then have one: "unat one_exp = 2 ^ e"
    using unat_push_bit_mod [of e "1 :: u32"] by (simp add: one_exp_def)
  then have "ucast one_exp \<le> (ucast x :: u64)"
    using lo by (simp add: word_le_nat_alt unat_ucast_up)
  then have diff: "unat diff = d"
    by (simp add: diff_def d_def unat_sub unat_ucast_up one)
  have d_lt: "d < 2 ^ e"
    using hi by (simp add: d_def)
  have "d < 2 ^ 32"
    using unat_lt_2p32 [of x] by (simp add: d_def)
  then have "d * 2 ^ 16 < 2 ^ 32 * 2 ^ 16"
    by simp
  then have f64: "unat (push_bit 16 diff) = d * 2 ^ 16"
    by (simp add: unat_push_bit_mod diff)
  have "d * 2 ^ 16 < 2 ^ 16 * 2 ^ e"
    using d_lt by simp
  then have small: "(d * 2 ^ 16) div 2 ^ e < 2 ^ 16"
    by (rule less_mult_imp_div_less)
  then have val: "unat (fast_rsqrt_frac x) = (d * 2 ^ 16) div 2 ^ e"
    by (simp add: frac unat_ucast_down unat_drop_bit_div f64)
  then show "unat (fast_rsqrt_frac x)
      = ((unat x - 2 ^ unat (fast_rsqrt_exp x)) * 2 ^ 16) div 2 ^ unat (fast_rsqrt_exp x)"
    by (simp add: d_def e_def)
  from val small show "unat (fast_rsqrt_frac x) < 2 ^ 16"
    by simp
qed

text \<open>
  In the top bucket the base is 0 and the offset is \<open>x >> 15\<close>.
\<close>

lemma fast_rsqrt_frac_top:
  fixes x :: u32
  assumes e: "unat (fast_rsqrt_exp x) = 31"
  shows "unat (fast_rsqrt_frac x) = unat x div 2 ^ 15"
proof -
  have "\<not> fast_rsqrt_exp x < 31"
    using e by (simp add: word_less_nat_alt)
  then have frac: "fast_rsqrt_frac x = ucast (drop_bit 31 (push_bit 16 (ucast x :: u64)))"
    by (simp add: fast_rsqrt_frac_def Let_def e)
  have "unat x * 2 ^ 16 < 2 ^ 32 * 2 ^ 16"
    using unat_lt_2p32 [of x] by simp
  then have f64: "unat (push_bit 16 (ucast x :: u64)) = unat x * 2 ^ 16"
    by (simp add: unat_push_bit_mod unat_ucast_up)
  have "unat x * 2 ^ 16 div (2 ^ 15 * 2 ^ 16) = unat x div 2 ^ 15"
    by (rule div_mult_mult2) simp
  then have q: "unat x * 2 ^ 16 div 2 ^ 31 = unat x div 2 ^ 15"
    by simp
  have "unat x div 2 ^ 15 < 2 ^ 32"
    using unat_lt_2p32 [of x] by (simp add: less_mult_imp_div_less)
  then show ?thesis
    by (simp add: frac unat_ucast_down unat_drop_bit_div f64 q)
qed

lemma fast_rsqrt_interp_low:
  fixes x :: u32
  assumes nz: "x \<noteq> 0" and e31: "unat (fast_rsqrt_exp x) < 31"
  shows "unat (fast_rsqrt_interp x)
      = unat (rsqrt_table ! unat (fast_rsqrt_exp x))
        - (unat (rsqrt_table ! unat (fast_rsqrt_exp x))
            - unat (rsqrt_table ! (unat (fast_rsqrt_exp x) + 1)))
          * unat (fast_rsqrt_frac x) div 2 ^ 16"
proof -
  define e where "e = unat (fast_rsqrt_exp x)"
  define y_base where "y_base = rsqrt_table ! e"
  define y_next where "y_next = rsqrt_table ! (e + 1)"
  define frac where "frac = fast_rsqrt_frac x"
  define interp :: u64 where "interp = ucast (y_base - y_next) * ucast frac"
  have lt: "fast_rsqrt_exp x < 31"
    using e31 by (simp add: word_less_nat_alt)
  have "unat (fast_rsqrt_exp x + 1) = e + 1"
    using e31 by (simp add: e_def unat_word_ariths)
  then have y: "fast_rsqrt_interp x = y_base - ucast (drop_bit 16 interp)"
    using lt by (simp add: fast_rsqrt_interp_def Let_def interp_def y_base_def y_next_def
        frac_def e_def)
  have "y_next \<le> y_base"
    using e31 rsqrt_table_decreasing [of e] by (simp add: y_next_def y_base_def e_def)
  then have delta: "unat (y_base - y_next) = unat y_base - unat y_next"
    by (simp add: unat_sub)
  have f: "unat frac < 2 ^ 16"
    using fast_rsqrt_frac_low(2) [OF nz e31] by (simp add: frac_def)
  have prod_le: "unat (y_base - y_next) * unat frac \<le> unat y_base * 2 ^ 16"
    using f by (intro mult_mono) (simp_all add: delta)
  also have "\<dots> < 2 ^ 32 * 2 ^ 16"
    using unat_lt_2p32 [of y_base] by simp
  finally have "unat (y_base - y_next) * unat frac < 2 ^ 64"
    by simp
  then have i: "unat interp = unat (y_base - y_next) * unat frac"
    unfolding interp_def by (subst unat_mult_u64) (simp_all add: unat_ucast_up)
  from prod_le have q: "unat interp div 2 ^ 16 \<le> unat y_base"
    by (simp add: i div_le_mono2 div_le_dividend)
  then have "unat interp div 2 ^ 16 < 2 ^ 32"
    using unat_lt_2p32 [of y_base] by simp
  then have sub: "unat (ucast (drop_bit 16 interp) :: u32) = unat interp div 2 ^ 16"
    by (simp add: unat_ucast_down unat_drop_bit_div)
  then have "(ucast (drop_bit 16 interp) :: u32) \<le> y_base"
    using q by (simp add: word_le_nat_alt)
  then have "unat (fast_rsqrt_interp x)
      = unat y_base - (unat y_base - unat y_next) * unat frac div 2 ^ 16"
    by (simp add: y unat_sub sub i delta)
  then show ?thesis
    unfolding y_base_def y_next_def frac_def e_def .
qed

lemma fast_rsqrt_interp_top:
  fixes x :: u32
  assumes e: "unat (fast_rsqrt_exp x) = 31"
  shows "fast_rsqrt_interp x = 1"
proof -
  have "\<not> fast_rsqrt_exp x < 31"
    using e by (simp add: word_less_nat_alt)
  then show ?thesis
    by (simp add: fast_rsqrt_interp_def Let_def e rsqrt_table_def)
qed

lemma fast_rsqrt_interp_le_base:
  fixes x :: u32
  assumes nz: "x \<noteq> 0"
  shows "unat (fast_rsqrt_interp x) \<le> unat (rsqrt_table ! unat (fast_rsqrt_exp x))"
proof (cases "unat (fast_rsqrt_exp x) < 31")
  case True
  then show ?thesis
    by (simp add: fast_rsqrt_interp_low [OF nz True])
next
  case False
  then have e: "unat (fast_rsqrt_exp x) = 31"
    using fast_rsqrt_exp_bucket(1) [OF nz] by simp
  then show ?thesis
    by (simp add: fast_rsqrt_interp_top rsqrt_table_def)
qed

lemma fast_rsqrt_interp_seed:
  fixes x :: u32
  assumes nz: "x \<noteq> 0"
  shows "unat x * (unat (fast_rsqrt_interp x))\<^sup>2 \<le> 3 * 2 ^ 32"
    and "unat (fast_rsqrt_interp x) \<le> 2 ^ 16"
proof -
  define e where "e = unat (fast_rsqrt_exp x)"
  define b where "b = unat (rsqrt_table ! e)"
  have e: "e < 32" and hi: "unat x < 2 ^ (e + 1)"
    using fast_rsqrt_exp_bucket [OF nz] by (simp_all add: e_def)
  have y: "unat (fast_rsqrt_interp x) \<le> b"
    using fast_rsqrt_interp_le_base [OF nz] by (simp add: b_def e_def)
  have b: "2 ^ (e + 1) * b\<^sup>2 \<le> 3 * 2 ^ 32" "b \<le> 2 ^ 16"
    using rsqrt_table_seed_bound [OF e] by (simp_all add: b_def)
  from y b(2) show "unat (fast_rsqrt_interp x) \<le> 2 ^ 16"
    by simp
  have "(unat (fast_rsqrt_interp x))\<^sup>2 \<le> b\<^sup>2"
    using y by (rule power_mono) simp
  with hi have "unat x * (unat (fast_rsqrt_interp x))\<^sup>2 \<le> 2 ^ (e + 1) * b\<^sup>2"
    by (intro mult_mono) simp_all
  then show "unat x * (unat (fast_rsqrt_interp x))\<^sup>2 \<le> 3 * 2 ^ 32"
    using b(1) by (rule order_trans)
qed

section \<open>One Newton-Raphson step on natural numbers\<close>

text \<open>
  When \<open>x * y\<^sup>2\<close> does not exceed \<open>3 * 2 ^ 32\<close> and \<open>y\<close> is at most \<open>2 ^ 16\<close>, none
  of the 64-bit intermediates of \<open>q16_newton_step\<close> wraps and the result is the
  exact quotient.
\<close>

lemma q16_newton_step_unat:
  fixes x y :: u32
  assumes s: "unat x * (unat y)\<^sup>2 \<le> 3 * 2 ^ 32" and y: "unat y \<le> 2 ^ 16"
  shows "unat (q16_newton_step y x) = (unat y * (3 * 2 ^ 32 - unat x * (unat y)\<^sup>2)) div 2 ^ 33"
proof -
  define y2 :: u64 where "y2 = ucast y * ucast y"
  define xy2 :: u64 where "xy2 = ucast x * y2"
  define term64 :: u64 where "term64 = push_bit 32 3 - xy2"
  define prod :: u64 where "prod = ucast y * term64"
  have step: "q16_newton_step y x = ucast (drop_bit 33 prod)"
    by (simp add: q16_newton_step_def prod_def term64_def xy2_def y2_def)
  have "unat y * unat y \<le> 2 ^ 16 * 2 ^ 16"
    using y by (intro mult_mono) simp_all
  then have y2: "unat y2 = (unat y)\<^sup>2"
    unfolding y2_def by (subst unat_mult_u64) (simp_all add: unat_ucast_up power2_eq_square)
  have xy2: "unat xy2 = unat x * (unat y)\<^sup>2"
    unfolding xy2_def using s by (subst unat_mult_u64) (simp_all add: unat_ucast_up y2)
  have three: "unat (push_bit 32 (3 :: u64)) = 3 * 2 ^ 32"
    by simp
  have "xy2 \<le> push_bit 32 3"
    using s by (simp add: word_le_nat_alt xy2 three del: push_bit_numeral)
  then have t: "unat term64 = 3 * 2 ^ 32 - unat x * (unat y)\<^sup>2"
    unfolding term64_def by (simp add: unat_sub xy2 three del: push_bit_numeral)
  have "unat y * unat term64 \<le> 2 ^ 16 * (3 * 2 ^ 32)"
    using y by (intro mult_mono) (simp_all add: t)
  then have bound: "unat y * unat term64 < 2 ^ 49 * 2"
    by simp
  then have p: "unat prod = unat y * unat term64"
    unfolding prod_def by (subst unat_mult_u64) (simp_all add: unat_ucast_up)
  have "unat prod div 2 ^ 33 < 2 ^ 32"
    using bound by (simp add: p less_mult_imp_div_less)
  then show ?thesis
    by (simp add: step unat_ucast_down unat_drop_bit_div p t)
qed

text \<open>
  The step never overshoots: with \<open>s = x * y\<^sup>2\<close> and \<open>A = 2 ^ 32\<close>,
  \<open>4 * A ^ 3 - s * (3 * A - s)\<^sup>2 = (A - s)\<^sup>2 * (4 * A - s)\<close> is not negative.
\<close>

lemma newton_poly_bound:
  fixes s A :: int
  assumes "0 \<le> s" "s \<le> 3 * A"  "0 \<le> A"
  shows "s * (3 * A - s)\<^sup>2 \<le> 4 * A ^ 3"
proof -
  have "4 * A ^ 3 - s * (3 * A - s)\<^sup>2 = (A - s)\<^sup>2 * (4 * A - s)"
    by (simp add: power2_eq_square power3_eq_cube algebra_simps)
  moreover have "0 \<le> (A - s)\<^sup>2 * (4 * A - s)"
    using assms by (intro mult_nonneg_nonneg) simp_all
  ultimately show ?thesis
    by simp
qed

lemma newton_quotient_bound:
  fixes x y :: nat
  assumes s: "x * y\<^sup>2 \<le> 3 * 2 ^ 32"
  shows "((y * (3 * 2 ^ 32 - x * y\<^sup>2)) div 2 ^ 33)\<^sup>2 * x \<le> 2 ^ 32"
proof -
  define A :: nat where "A = 2 ^ 32"
  define t where "t = x * y\<^sup>2"
  define P where "P = y * (3 * A - t)"
  define r where "r = P div (2 * A)"
  have t: "t \<le> 3 * A"
    using s by (simp add: A_def t_def)
  have "int t * (3 * int A - int t)\<^sup>2 \<le> 4 * int A ^ 3"
    using t by (intro newton_poly_bound) simp_all
  moreover have "int (3 * A - t) = 3 * int A - int t"
    using t by (simp add: of_nat_diff)
  ultimately have "int (t * (3 * A - t)\<^sup>2) \<le> int (4 * A ^ 3)"
    by simp
  then have poly: "t * (3 * A - t)\<^sup>2 \<le> 4 * A ^ 3"
    by (simp only: of_nat_le_iff)
  have "2 * A * r \<le> P"
    by (simp add: r_def)
  then have "(2 * A * r)\<^sup>2 \<le> P\<^sup>2"
    by (rule power_mono) simp
  then have "(2 * A * r)\<^sup>2 * x \<le> P\<^sup>2 * x"
    by simp
  also have "P\<^sup>2 * x = t * (3 * A - t)\<^sup>2"
    by (simp add: P_def t_def power_mult_distrib)
  also note poly
  finally have "(4 * A\<^sup>2) * (r\<^sup>2 * x) \<le> (4 * A\<^sup>2) * A"
    by (simp add: power_mult_distrib power2_eq_square power3_eq_cube mult_ac)
  then have "r\<^sup>2 * x \<le> A"
    by (simp add: A_def mult.commute)
  then show ?thesis
    by (simp add: r_def P_def A_def t_def)
qed

lemma q16_newton_step_no_overshoot:
  fixes x y :: u32
  assumes s: "unat x * (unat y)\<^sup>2 \<le> 3 * 2 ^ 32" and y: "unat y \<le> 2 ^ 16" and nz: "x \<noteq> 0"
  shows "(unat (q16_newton_step y x))\<^sup>2 * unat x \<le> 2 ^ 32"
    and "unat (q16_newton_step y x) \<le> 2 ^ 16"
proof -
  define r where "r = unat (q16_newton_step y x)"
  have r: "r\<^sup>2 * unat x \<le> 2 ^ 32"
    using newton_quotient_bound [OF s] by (simp add: r_def q16_newton_step_unat [OF s y])
  then show "(unat (q16_newton_step y x))\<^sup>2 * unat x \<le> 2 ^ 32"
    by (simp add: r_def)
  have "1 \<le> unat x"
    using nz by (simp add: Suc_le_eq unat_gt_0)
  then have "r\<^sup>2 \<le> r\<^sup>2 * unat x"
    by simp
  then have "r\<^sup>2 \<le> 2 ^ 32"
    using r by (rule order_trans)
  then have "r\<^sup>2 \<le> (2 ^ 16)\<^sup>2"
    by simp
  then have "r \<le> 2 ^ 16"
    by (rule power2_le_imp_le) simp
  then show "unat (q16_newton_step y x) \<le> 2 ^ 16"
    by (simp add: r_def)
qed

lemma fast_rsqrt_no_overshoot:
  fixes x :: u32
  assumes nz: "x \<noteq> 0"
  shows "(unat (fast_rsqrt x))\<^sup>2 * unat x \<le> 2 ^ 32"
proof -
  define y0 where "y0 = fast_rsqrt_interp x"
  define y1 where "y1 = q16_newton_step y0 x"
  have y0: "unat x * (unat y0)\<^sup>2 \<le> 3 * 2 ^ 32" "unat y0 \<le> 2 ^ 16"
    using fast_rsqrt_interp_seed [OF nz] by (simp_all add: y0_def)
  have y1: "(unat y1)\<^sup>2 * unat x \<le> 2 ^ 32" "unat y1 \<le> 2 ^ 16"
    using q16_newton_step_no_overshoot [OF y0 nz] by (simp_all add: y1_def)
  then have "unat x * (unat y1)\<^sup>2 \<le> 3 * 2 ^ 32"
    by (simp add: mult.commute)
  from q16_newton_step_no_overshoot(1) [OF this y1(2) nz] show ?thesis
    using nz by (simp add: fast_rsqrt_def y1_def y0_def)
qed

section \<open>The top bucket and the sum of squares\<close>

text \<open>
  With the seed 1 and an input of at least \<open>2 ^ 31\<close> the Newton-Raphson step
  computes \<open>(3 * 2 ^ 32 - x) div 2 ^ 33\<close>, which is 1.
\<close>

lemma q16_newton_step_one:
  fixes x :: u32
  assumes "2 ^ 31 \<le> unat x"
  shows "q16_newton_step 1 x = 1"
proof -
  have "unat x < 2 ^ 32"
    by (rule unat_lt_2p32)
  then have "unat (q16_newton_step 1 x) = (3 * 2 ^ 32 - unat x) div 2 ^ 33"
    using q16_newton_step_unat [of x 1] by simp
  also have "\<dots> = 1"
    using assms \<open>unat x < 2 ^ 32\<close> by simp
  finally have "unat (q16_newton_step 1 x) = unat (1 :: u32)"
    by simp
  then show ?thesis
    by (simp only: word_unat_eq_iff)
qed

lemma fast_rsqrt_top:
  fixes x :: u32
  assumes big: "2 ^ 31 \<le> unat x"
  shows "fast_rsqrt x = 1"
proof -
  have nz: "x \<noteq> 0"
    using big by auto
  define e where "e = unat (fast_rsqrt_exp x)"
  have le: "e \<le> 31" and hi: "unat x < 2 ^ (e + 1)"
    using fast_rsqrt_exp_bucket [OF nz] by (simp_all add: e_def)
  have "e = 31"
  proof (rule ccontr)
    assume "e \<noteq> 31"
    with le have "e + 1 \<le> 31"
      by simp
    then have "(2::nat) ^ (e + 1) \<le> 2 ^ 31"
      by (intro power_increasing) simp_all
    with hi big show False
      by simp
  qed
  then have "fast_rsqrt_interp x = 1"
    by (intro fast_rsqrt_interp_top) (simp add: e_def)
  then show ?thesis
    using nz by (simp add: fast_rsqrt_def q16_newton_step_one [OF big])
qed

text \<open>
  The 64-bit sum of squares in \<open>dist3\<close> is exact: each square is at most \<open>2 ^ 62\<close>.
\<close>

lemma sq_sint_bound: "(sint (x :: u32))\<^sup>2 \<le> 2 ^ 62"
proof -
  have "\<bar>sint x\<bar> \<le> 2 ^ 31"
    using sint_ge [of x] sint_lt [of x] by simp
  then have "\<bar>sint x\<bar>\<^sup>2 \<le> (2 ^ 31)\<^sup>2"
    by (rule power_mono) simp
  then show ?thesis
    by simp
qed

lemma dist3_sum_sq_exact:
  fixes x y z :: u32
  shows "uint ((scast x :: u64) * scast x + scast y * scast y + scast z * scast z)
    = (sint x)\<^sup>2 + (sint y)\<^sup>2 + (sint z)\<^sup>2"
proof -
  define S where "S = (sint x)\<^sup>2 + (sint y)\<^sup>2 + (sint z)\<^sup>2"
  have eq: "(scast x :: u64) * scast x + scast y * scast y + scast z * scast z = word_of_int S"
    by (simp add: S_def power2_eq_square)
  have "0 \<le> S"
    by (simp add: S_def)
  moreover have "S < 2 ^ 64"
    using sq_sint_bound [of x] sq_sint_bound [of y] sq_sint_bound [of z] by (simp add: S_def)
  ultimately have "uint (word_of_int S :: u64) = S"
    by (simp add: uint_word_of_int)
  then show ?thesis
    by (simp only: eq S_def)
qed

section \<open>The computation below the top bucket\<close>

text \<open>
  For a nonzero input in a bucket \<open>e < 31\<close> no intermediate value of \<open>fast_rsqrt\<close>
  wraps, and the result is the exact-arithmetic computation \<open>rsqrt_nat\<close>.
\<close>

lemma q16_newton_step_nat:
  fixes x y :: u32
  assumes "unat x * (unat y)\<^sup>2 \<le> 3 * 2 ^ 32" and "unat y \<le> 2 ^ 16"
  shows "unat (q16_newton_step y x) = newton_nat (unat y) (unat x)"
  using q16_newton_step_unat [OF assms] by (simp add: newton_nat_def)

lemma fast_rsqrt_unat:
  fixes x :: u32
  assumes nz: "x \<noteq> 0" and e31: "unat (fast_rsqrt_exp x) < 31"
  shows "unat (fast_rsqrt x) = rsqrt_nat (unat (fast_rsqrt_exp x)) (unat x)"
proof -
  define y0 where "y0 = fast_rsqrt_interp x"
  define y1 where "y1 = q16_newton_step y0 x"
  have seed: "unat y0 = seed_nat (unat (fast_rsqrt_exp x)) (unat x)"
    unfolding y0_def seed_nat_def
    by (simp only: fast_rsqrt_interp_low [OF nz e31] fast_rsqrt_frac_low(1) [OF nz e31])
  have y0: "unat x * (unat y0)\<^sup>2 \<le> 3 * 2 ^ 32" "unat y0 \<le> 2 ^ 16"
    using fast_rsqrt_interp_seed [OF nz] by (simp_all add: y0_def)
  have y1: "(unat y1)\<^sup>2 * unat x \<le> 2 ^ 32" "unat y1 \<le> 2 ^ 16"
    using q16_newton_step_no_overshoot [OF y0 nz] by (simp_all add: y1_def)
  then have y1': "unat x * (unat y1)\<^sup>2 \<le> 3 * 2 ^ 32"
    by (simp add: mult.commute)
  have "unat (fast_rsqrt x) = unat (q16_newton_step y1 x)"
    using nz by (simp add: fast_rsqrt_def y1_def y0_def)
  also have "\<dots> = newton_nat (unat y1) (unat x)"
    by (rule q16_newton_step_nat [OF y1' y1(2)])
  also have "unat y1 = newton_nat (unat y0) (unat x)"
    unfolding y1_def by (rule q16_newton_step_nat [OF y0])
  finally show ?thesis
    by (simp add: rsqrt_nat_def seed)
qed

section \<open>Inputs up to 1132, by enumeration\<close>

text \<open>
  The tolerance holds for each input from 1 to 1132. The inputs are enumerated
  bucket by bucket on the exact-arithmetic computation.
\<close>

lemma tolerance_bucket_0: "tolerance_ok (rsqrt_nat 0 1) 1"
  by (simp add: tolerance_ok_def rsqrt_nat_def newton_nat_def seed_nat_def rsqrt_table_def)

lemma tolerance_bucket_1: "list_all (\<lambda>n. tolerance_ok (rsqrt_nat 1 n) n) [2..<4]"
  by (simp add: tolerance_ok_def rsqrt_nat_def newton_nat_def seed_nat_def rsqrt_table_def)

lemma tolerance_bucket_2: "list_all (\<lambda>n. tolerance_ok (rsqrt_nat 2 n) n) [4..<8]"
  by (simp add: tolerance_ok_def rsqrt_nat_def newton_nat_def seed_nat_def rsqrt_table_def)

lemma tolerance_bucket_3: "list_all (\<lambda>n. tolerance_ok (rsqrt_nat 3 n) n) [8..<16]"
  by (simp add: tolerance_ok_def rsqrt_nat_def newton_nat_def seed_nat_def rsqrt_table_def)

lemma tolerance_bucket_4: "list_all (\<lambda>n. tolerance_ok (rsqrt_nat 4 n) n) [16..<32]"
  by (simp add: tolerance_ok_def rsqrt_nat_def newton_nat_def seed_nat_def rsqrt_table_def)

lemma tolerance_bucket_5: "list_all (\<lambda>n. tolerance_ok (rsqrt_nat 5 n) n) [32..<64]"
  by (simp add: tolerance_ok_def rsqrt_nat_def newton_nat_def seed_nat_def rsqrt_table_def)

lemma tolerance_bucket_6: "list_all (\<lambda>n. tolerance_ok (rsqrt_nat 6 n) n) [64..<128]"
  by (simp add: tolerance_ok_def rsqrt_nat_def newton_nat_def seed_nat_def rsqrt_table_def)

lemma tolerance_bucket_7: "list_all (\<lambda>n. tolerance_ok (rsqrt_nat 7 n) n) [128..<256]"
  by (simp add: tolerance_ok_def rsqrt_nat_def newton_nat_def seed_nat_def rsqrt_table_def)

lemma tolerance_bucket_8: "list_all (\<lambda>n. tolerance_ok (rsqrt_nat 8 n) n) [256..<512]"
  by (simp add: tolerance_ok_def rsqrt_nat_def newton_nat_def seed_nat_def rsqrt_table_def)

lemma tolerance_bucket_9a: "list_all (\<lambda>n. tolerance_ok (rsqrt_nat 9 n) n) [512..<768]"
  by (simp add: tolerance_ok_def rsqrt_nat_def newton_nat_def seed_nat_def rsqrt_table_def)

lemma tolerance_bucket_9b: "list_all (\<lambda>n. tolerance_ok (rsqrt_nat 9 n) n) [768..<1024]"
  by (simp add: tolerance_ok_def rsqrt_nat_def newton_nat_def seed_nat_def rsqrt_table_def)

lemma tolerance_bucket_10: "list_all (\<lambda>n. tolerance_ok (rsqrt_nat 10 n) n) [1024..<1133]"
  by (simp add: tolerance_ok_def rsqrt_nat_def newton_nat_def seed_nat_def rsqrt_table_def)

lemma list_all_uptD:
  assumes "list_all P [a..<b]" and "a \<le> n" and "n < b"
  shows "P n"
  using assms by (simp add: list_all_iff)

lemma tolerance_small_nat:
  assumes n: "n \<le> 1132" and lo: "2 ^ e \<le> n" and hi: "n < 2 ^ (e + 1)"
  shows "tolerance_ok (rsqrt_nat e n) n"
proof -
  have "(2::nat) ^ e < 2 ^ 11"
    using lo n by simp
  then have "e < 11"
    by (simp only: power_strict_increasing_iff) 
  then have "e = 0 \<or> e = 1 \<or> e = 2 \<or> e = 3 \<or> e = 4 \<or> e = 5 \<or> e = 6 \<or> e = 7
      \<or> e = 8 \<or> e = 9 \<or> e = 10"
    by arith
  then consider "e = 0" | "e = 1" | "e = 2" | "e = 3" | "e = 4" | "e = 5" | "e = 6"
    | "e = 7" | "e = 8" | "e = 9" | "e = 10"
    by blast
  then show ?thesis
  proof cases
    case 1
    with lo hi have "n = 1" by simp
    with 1 tolerance_bucket_0 show ?thesis by simp
  next
    case 2
    with lo hi list_all_uptD [OF tolerance_bucket_1, of n] show ?thesis by simp
  next
    case 3
    with lo hi list_all_uptD [OF tolerance_bucket_2, of n] show ?thesis by simp
  next
    case 4
    with lo hi list_all_uptD [OF tolerance_bucket_3, of n] show ?thesis by simp
  next
    case 5
    with lo hi list_all_uptD [OF tolerance_bucket_4, of n] show ?thesis by simp
  next
    case 6
    with lo hi list_all_uptD [OF tolerance_bucket_5, of n] show ?thesis by simp
  next
    case 7
    with lo hi list_all_uptD [OF tolerance_bucket_6, of n] show ?thesis by simp
  next
    case 8
    with lo hi list_all_uptD [OF tolerance_bucket_7, of n] show ?thesis by simp
  next
    case 9
    with lo hi list_all_uptD [OF tolerance_bucket_8, of n] show ?thesis by simp
  next
    case 10
    with lo hi list_all_uptD [OF tolerance_bucket_9a, of n]
      list_all_uptD [OF tolerance_bucket_9b, of n] show ?thesis
      by (cases "n < 768") simp_all
  next
    case 11
    with lo hi n list_all_uptD [OF tolerance_bucket_10, of n] show ?thesis by simp
  qed
qed

lemma fast_rsqrt_tolerance_small:
  fixes x :: u32
  assumes nz: "x \<noteq> 0" and small: "unat x \<le> 1132"
  shows "tolerance_ok (unat (fast_rsqrt x)) (unat x)"
proof -
  define e where "e = unat (fast_rsqrt_exp x)"
  have lo: "2 ^ e \<le> unat x" and hi: "unat x < 2 ^ (e + 1)"
    using fast_rsqrt_exp_bucket [OF nz] by (simp_all add: e_def)
  have "(2::nat) ^ e < 2 ^ 31"
    using lo small by simp
  then have "e < 31"
    by (simp only: power_strict_increasing_iff)
  then have "unat (fast_rsqrt x) = rsqrt_nat e (unat x)"
    using fast_rsqrt_unat [OF nz] by (simp add: e_def)
  then show ?thesis
    using tolerance_small_nat [OF small lo hi] by simp
qed

section \<open>Just below a power of four\<close>

text \<open>
  At \<open>x = 4 ^ k\<close> the seed is the exact table entry \<open>2 ^ (16 - k)\<close> and both steps keep
  it. At \<open>x = 4 ^ k - 1\<close>, for \<open>k\<close> from 8 to 15, the truncating steps end one unit
  below \<open>2 ^ (16 - k)\<close>, which is the floor of \<open>2 ^ 16 / sqrt x\<close> there.
\<close>

lemma fast_rsqrt_at_powers_of_four:
  "fast_rsqrt 65536 = 256 \<and> fast_rsqrt 262144 = 128 \<and> fast_rsqrt 1048576 = 64
    \<and> fast_rsqrt 4194304 = 32 \<and> fast_rsqrt 16777216 = 16 \<and> fast_rsqrt 67108864 = 8
    \<and> fast_rsqrt 268435456 = 4 \<and> fast_rsqrt 1073741824 = 2"
  by (simp add: fast_rsqrt_def fast_rsqrt_interp_def fast_rsqrt_frac_def fast_rsqrt_exp_def
      clz32_def q16_newton_step_def rsqrt_table_def)

lemma fast_rsqrt_below_powers_of_four:
  "fast_rsqrt 65535 = 255 \<and> fast_rsqrt 262143 = 127 \<and> fast_rsqrt 1048575 = 63
    \<and> fast_rsqrt 4194303 = 31 \<and> fast_rsqrt 16777215 = 15 \<and> fast_rsqrt 67108863 = 7
    \<and> fast_rsqrt 268435455 = 3 \<and> fast_rsqrt 1073741823 = 1"
  by (simp add: fast_rsqrt_def fast_rsqrt_interp_def fast_rsqrt_frac_def fast_rsqrt_exp_def
      clz32_def q16_newton_step_def rsqrt_table_def)

section \<open>The properties\<close>

text \<open>
  C1. For input 0 the reciprocal square root saturates: \<open>fast_rsqrt\<close> returns the
  largest unsigned 32-bit value \<open>0xFFFFFFFF\<close>; there is no error result.
\<close>

theorem fast_rsqrt_zero_saturates: "fast_rsqrt 0 = 0xFFFFFFFF"
  by (simp add: fast_rsqrt_def)

text \<open>
  C2. For every nonzero 32-bit input \<open>x\<close> the exponent \<open>e = 31 - clz32 x\<close> is at most
  31 and satisfies \<open>2 ^ e \<le> x < 2 ^ (e + 1)\<close>, read in exact arithmetic (so the top
  bucket \<open>e = 31\<close> reaches up to \<open>2 ^ 32 - 1\<close>). Equivalently, bit \<open>e\<close> of \<open>x\<close> is set
  and no higher bit is.
\<close>

theorem exponent_bucket:
  fixes x :: u32
  assumes "x \<noteq> 0"
  shows "unat (31 - clz32 x) \<le> 31
    \<and> 2 ^ unat (31 - clz32 x) \<le> unat x
    \<and> unat x < 2 ^ (unat (31 - clz32 x) + 1)
    \<and> bit x (unat (31 - clz32 x))
    \<and> (\<forall>i. unat (31 - clz32 x) < i \<longrightarrow> \<not> bit x i)"
proof -
  define e where "e = unat (31 - clz32 x)"
  have e: "e = unat (fast_rsqrt_exp x)"
    by (simp add: e_def fast_rsqrt_exp_def)
  have le: "e \<le> 31" and lo: "2 ^ e \<le> unat x" and hi: "unat x < 2 ^ (e + 1)"
    using fast_rsqrt_exp_bucket [OF assms] by (simp_all add: e)
  have "unat x div 2 ^ e = 1"
  proof -
    have "unat x div 2 ^ e < 2"
      using hi by (simp add: less_mult_imp_div_less)
    moreover have "0 < unat x div 2 ^ e"
      using lo by (simp add: div_greater_zero_iff)
    ultimately show ?thesis
      by simp
  qed
  then have "bit (unat x) e"
    by (simp add: bit_iff_odd)
  then have top: "bit x e"
    by (simp add: bit_unsigned_iff)
  have above: "\<not> bit x i" if "e < i" for i
  proof -
    have "(2::nat) ^ (e + 1) \<le> 2 ^ i"
      using that by (intro power_increasing) simp_all
    with hi have "unat x < 2 ^ i"
      by simp
    then have "\<not> bit (unat x) i"
      by (simp add: bit_iff_odd)
    then show ?thesis
      by (simp add: bit_unsigned_iff)
  qed
  from le lo hi top above show ?thesis
    unfolding e_def by blast
qed

theorem exponent_bucket_witness:
  "(5 :: u32) \<noteq> 0 \<and> unat (31 - clz32 (5 :: u32)) = 2
    \<and> 2 ^ unat (31 - clz32 (5 :: u32)) \<le> unat (5 :: u32)
    \<and> unat (5 :: u32) < 2 ^ (unat (31 - clz32 (5 :: u32)) + 1)
    \<and> bit (5 :: u32) (unat (31 - clz32 (5 :: u32)))"
  using exponent_bucket [of 5] by (simp add: clz32_def)

text \<open>
  C3 (as stated, refuted). The claim says that for every \<open>x > 0\<close> the exact integer
  \<open>y\<^sup>2 * x\<close>, with \<open>y\<close> the output for \<open>x\<close>, is within 0.1 per cent of \<open>2 ^ 32\<close>.
  At \<open>x = 1133\<close> the output is 1946 and \<open>1946\<^sup>2 * 1133\<close> misses \<open>2 ^ 32\<close> by more
  than \<open>2 ^ 32 / 1000\<close>.
\<close>

theorem round_trip_tolerance_counterexample:
  "(1133 :: u32) \<noteq> 0 \<and> fast_rsqrt 1133 = 1946
    \<and> \<not> tolerance_ok (unat (fast_rsqrt 1133)) (unat (1133 :: u32))"
  by (simp add: tolerance_ok_def fast_rsqrt_def fast_rsqrt_interp_def fast_rsqrt_frac_def
      fast_rsqrt_exp_def clz32_def q16_newton_step_def rsqrt_table_def)

text \<open>
  C3 (amended). For every \<open>x > 0\<close> the exact integer \<open>y\<^sup>2 * x\<close> never exceeds
  \<open>2 ^ 32\<close>, and for every \<open>x\<close> from 1 to 1132 it is within 0.1 per cent of
  \<open>2 ^ 32\<close>.
\<close>

theorem round_trip_tolerance:
  fixes x :: u32
  assumes "x \<noteq> 0"
  shows "(unat (fast_rsqrt x))\<^sup>2 * unat x \<le> 2 ^ 32
    \<and> (x \<le> 1132 \<longrightarrow> tolerance_ok (unat (fast_rsqrt x)) (unat x))"
proof -
  have "tolerance_ok (unat (fast_rsqrt x)) (unat x)" if "x \<le> 1132"
    using that by (intro fast_rsqrt_tolerance_small [OF assms]) (simp add: word_le_nat_alt)
  with fast_rsqrt_no_overshoot [OF assms] show ?thesis
    by blast
qed

theorem round_trip_tolerance_witness:
  "(1000 :: u32) \<noteq> 0 \<and> (1000 :: u32) \<le> 1132
    \<and> (unat (fast_rsqrt 1000))\<^sup>2 * unat (1000 :: u32) \<le> 2 ^ 32
    \<and> tolerance_ok (unat (fast_rsqrt 1000)) (unat (1000 :: u32))"
  using round_trip_tolerance [of 1000] by simp

text \<open>
  C4 (the input on which it fails). The claim says that
  \<open>fast_rsqrt (x + 1) \<le> fast_rsqrt x\<close> for every \<open>x\<close> from 1 on. At \<open>x = 65535\<close> the
  code returns 255, one unit below the floor of \<open>2 ^ 16 / sqrt 65535\<close>, which is 256
  (\<open>256\<^sup>2 * 65535 \<le> 2 ^ 32 < 257\<^sup>2 * 65535\<close>) and which the comment on line 35 says
  the function returns; at 65536 it returns 256, so the output rises.
\<close>

theorem adjacent_monotone_fails:
  "fast_rsqrt 65535 = 255 \<and> fast_rsqrt (65535 + 1) = 256
    \<and> \<not> fast_rsqrt (65535 + 1) \<le> fast_rsqrt 65535
    \<and> 256\<^sup>2 * unat (65535 :: u32) \<le> 2 ^ 32 \<and> 2 ^ 32 < 257\<^sup>2 * unat (65535 :: u32)"
  by (simp add: fast_rsqrt_def fast_rsqrt_interp_def fast_rsqrt_frac_def
      fast_rsqrt_exp_def clz32_def q16_newton_step_def rsqrt_table_def)

text \<open>
  C5 (as stated, refuted). The claim says that for every nonzero \<open>x\<close> the offset
  \<open>frac = ((x - base) << 16) >> e\<close>, with base \<open>2 ^ e\<close> for \<open>e < 31\<close> and base 0 for
  \<open>e = 31\<close>, is below 65536. For \<open>x = 0x80000000\<close> the exponent is 31 and the offset
  is 65536.
\<close>

theorem frac_range_counterexample:
  "(0x80000000 :: u32) \<noteq> 0 \<and> fast_rsqrt_exp 0x80000000 = 31
    \<and> fast_rsqrt_frac 0x80000000 = 65536
    \<and> \<not> unat (fast_rsqrt_frac 0x80000000) < 65536"
  by (simp add: fast_rsqrt_frac_def fast_rsqrt_exp_def clz32_def)

text \<open>
  C5 (amended). For every nonzero \<open>x\<close> in a bucket \<open>e < 31\<close> the offset is in
  \<open>[0, 65536)\<close>. In the top bucket \<open>e = 31\<close>, where the base is 0, the offset is
  \<open>x >> 15\<close> and lies in \<open>[65536, 131072)\<close>.
\<close>

theorem frac_range:
  fixes x :: u32
  assumes "x \<noteq> 0"
  shows "(fast_rsqrt_exp x < 31 \<longrightarrow> unat (fast_rsqrt_frac x) < 65536)
    \<and> (\<not> fast_rsqrt_exp x < 31 \<longrightarrow>
          fast_rsqrt_exp x = 31 \<and> fast_rsqrt_frac x = drop_bit 15 x
          \<and> 65536 \<le> unat (fast_rsqrt_frac x) \<and> unat (fast_rsqrt_frac x) < 131072)"
proof -
  have low: "unat (fast_rsqrt_frac x) < 65536" if "fast_rsqrt_exp x < 31"
    using that fast_rsqrt_frac_low(2) [OF assms] by (simp add: word_less_nat_alt)
  have top: "fast_rsqrt_exp x = 31 \<and> fast_rsqrt_frac x = drop_bit 15 x
      \<and> 65536 \<le> unat (fast_rsqrt_frac x) \<and> unat (fast_rsqrt_frac x) < 131072"
    if "\<not> fast_rsqrt_exp x < 31"
  proof -
    have e: "unat (fast_rsqrt_exp x) = 31"
      using that fast_rsqrt_exp_bucket(1) [OF assms] by (simp add: word_less_nat_alt)
    then have "unat (fast_rsqrt_exp x) = unat (31 :: u32)"
      by simp
    then have e': "fast_rsqrt_exp x = 31"
      by (simp only: word_unat_eq_iff)
    have lo: "2 ^ 31 \<le> unat x"
      using fast_rsqrt_exp_bucket(2) [OF assms] by (simp add: e)
    have val: "unat (fast_rsqrt_frac x) = unat x div 2 ^ 15"
      by (rule fast_rsqrt_frac_top [OF e])
    then have "unat (fast_rsqrt_frac x) = unat (drop_bit 15 x)"
      by (simp add: unat_drop_bit_div)
    then have eq: "fast_rsqrt_frac x = drop_bit 15 x"
      by (simp only: word_unat_eq_iff)
    have "2 ^ 16 * 2 ^ 15 \<le> unat x"
      using lo by simp
    then have ge: "2 ^ 16 \<le> unat x div 2 ^ 15"
      by (simp only: less_eq_div_iff_mult_less_eq zero_less_power zero_less_numeral)
    have "unat x < 2 ^ 17 * 2 ^ 15"
      using unat_lt_2p32 [of x] by simp
    then have "unat x div 2 ^ 15 < 2 ^ 17"
      by (rule less_mult_imp_div_less)
    with ge e' eq val show ?thesis
      by simp
  qed
  from low top show ?thesis
    by blast
qed

theorem frac_range_witness:
  "(5 :: u32) \<noteq> 0 \<and> fast_rsqrt_exp 5 < 31 \<and> unat (fast_rsqrt_frac 5) < 65536
    \<and> (0xC0000000 :: u32) \<noteq> 0 \<and> \<not> fast_rsqrt_exp 0xC0000000 < 31
    \<and> 65536 \<le> unat (fast_rsqrt_frac 0xC0000000) \<and> unat (fast_rsqrt_frac 0xC0000000) < 131072"
proof -
  have "(5 :: u32) \<noteq> 0" and "fast_rsqrt_exp 5 < 31" and "(0xC0000000 :: u32) \<noteq> 0"
    and "\<not> fast_rsqrt_exp 0xC0000000 < 31"
    by (simp_all add: fast_rsqrt_exp_def clz32_def)
  with frac_range [of 5] frac_range [of "0xC0000000"] show ?thesis
    by blast
qed

text \<open>
  C6. For all signed 32-bit \<open>x\<close>, \<open>y\<close>, \<open>z\<close> whose exact sum of squares exceeds
  \<open>0xFFFFFFFF\<close>, \<open>dist3\<close> does not wrap: the result is the one computed from the
  clamped sum \<open>0xFFFFFFFF\<close>, through the reciprocal square root of the clamped sum
  and the rescaling multiply, which is 65535.
\<close>

theorem dist3_saturates:
  fixes x y z :: u32
  assumes "0xFFFFFFFF < (sint x)\<^sup>2 + (sint y)\<^sup>2 + (sint z)\<^sup>2"
  shows "dist3 x y z = ucast (drop_bit 16 ((ucast (fast_rsqrt 0xFFFFFFFF) :: u64) * 0xFFFFFFFF))
    \<and> dist3 x y z = 65535"
proof -
  define sum_sq :: u64 where
    "sum_sq = scast x * scast x + scast y * scast y + scast z * scast z"
  have "uint (0xFFFFFFFF :: u64) < uint sum_sq"
    using assms by (simp add: sum_sq_def dist3_sum_sq_exact)
  then have over: "0xFFFFFFFF < sum_sq"
    by (simp only: word_less_alt)
  have top: "fast_rsqrt 0xFFFFFFFF = 1"
    by (rule fast_rsqrt_top) simp
  have "dist3 x y z = ucast (drop_bit 16 ((ucast (fast_rsqrt 0xFFFFFFFF) :: u64) * 0xFFFFFFFF))"
    using over by (simp add: dist3_def Let_def sum_sq_def)
  then show ?thesis
    by (simp add: top)
qed

theorem dist3_saturates_witness:
  "0xFFFFFFFF < (sint (65536 :: u32))\<^sup>2 + (sint (0 :: u32))\<^sup>2 + (sint (0 :: u32))\<^sup>2
    \<and> dist3 65536 0 0 = 65535"
proof -
  have h: "0xFFFFFFFF < (sint (65536 :: u32))\<^sup>2 + (sint (0 :: u32))\<^sup>2 + (sint (0 :: u32))\<^sup>2"
    by simp
  from dist3_saturates [OF h] have "dist3 65536 0 0 = 65535"
    by (rule conjunct2)
  with h show ?thesis
    by (rule conjI)
qed

text \<open>
  C7. \<open>dist3 0 0 0\<close> is exactly 0: the inner call \<open>fast_rsqrt 0\<close> returns the saturated
  value \<open>0xFFFFFFFF\<close>, and the final multiplication by the zero sum gives 0.
\<close>

theorem dist3_origin: "dist3 0 0 0 = 0 \<and> fast_rsqrt (ucast (0 :: u64)) = 0xFFFFFFFF"
  by (simp add: dist3_def fast_rsqrt_def)

text \<open>
  C8. \<open>fast_rsqrt 1\<close> is exactly 65536: the input sits at the boundary of bucket 0 with
  offset 0, the seed is the table entry 65536, and each Newton-Raphson step maps
  65536 to itself.
\<close>

theorem fast_rsqrt_one:
  "fast_rsqrt 1 = 65536 \<and> fast_rsqrt_frac 1 = 0 \<and> fast_rsqrt_interp 1 = 65536
    \<and> q16_newton_step 65536 1 = 65536"
  by (simp add: fast_rsqrt_def fast_rsqrt_interp_def fast_rsqrt_frac_def fast_rsqrt_exp_def
      clz32_def q16_newton_step_def rsqrt_table_def)

text \<open>
  C9. \<open>dist3 1 2 3\<close> is 3 or 4, an integer approximation of the square root of 14.
\<close>

theorem dist3_one_two_three: "dist3 1 2 3 = 3 \<or> dist3 1 2 3 = 4"
  by (simp add: dist3_def fast_rsqrt_def fast_rsqrt_interp_def fast_rsqrt_frac_def
      fast_rsqrt_exp_def clz32_def q16_newton_step_def rsqrt_table_def)

text \<open>
  C10. For every input in the top bucket, \<open>2 ^ 31 \<le> x \<le> 2 ^ 32 - 1\<close>, the table entry
  and the substituted next entry are both 1, the interpolated seed is 1, and
  \<open>fast_rsqrt x\<close> is exactly 1.
\<close>

theorem fast_rsqrt_top_bucket:
  fixes x :: u32
  assumes "0x80000000 \<le> x"
  shows "fast_rsqrt x = 1 \<and> fast_rsqrt_interp x = 1"
proof -
  have big: "2 ^ 31 \<le> unat x"
    using assms by (simp add: word_le_nat_alt)
  then have nz: "x \<noteq> 0"
    by auto
  have "unat (fast_rsqrt_exp x) = 31"
  proof (rule ccontr)
    assume ne: "unat (fast_rsqrt_exp x) \<noteq> 31"
    with fast_rsqrt_exp_bucket(1) [OF nz] have "unat (fast_rsqrt_exp x) + 1 \<le> 31"
      by simp
    then have "(2::nat) ^ (unat (fast_rsqrt_exp x) + 1) \<le> 2 ^ 31"
      by (intro power_increasing) simp_all
    with fast_rsqrt_exp_bucket(3) [OF nz] big show False
      by simp
  qed
  then have "fast_rsqrt_interp x = 1"
    by (rule fast_rsqrt_interp_top)
  with fast_rsqrt_top [OF big] show ?thesis
    by simp
qed

theorem fast_rsqrt_top_bucket_witness:
  "(0x80000000 :: u32) \<le> 0xC0000000 \<and> fast_rsqrt 0xC0000000 = 1"
  using fast_rsqrt_top_bucket [of "0xC0000000"] by simp


end
